theory Spec2Isabelle
  imports Complex_Main "HOL-Library.AList" "HOL-Library.Sublist" "HOL-Library.Multiset"
begin

section \<open>Numbers and insertion-ordered maps\<close>

text \<open>
  A TypeScript \<open>number\<close> is idealised as an exact rational.  The one non-finite value the
  program itself produces is \<open>Infinity\<close> (the initial tentative distance), so a distance is
  either a finite rational or \<open>Infinity\<close>; rents, weights and tuning parameters are finite.
\<close>

datatype number = Fin rat | Infinity

text \<open>\<open>a < b\<close> on numbers.\<close>

fun num_less :: "number \<Rightarrow> number \<Rightarrow> bool" where
  "num_less (Fin a) (Fin b) = (a < b)"
| "num_less (Fin a) Infinity = True"
| "num_less Infinity b = False"

text \<open>\<open>a <= b\<close> on numbers (used in statements only; the program compares with \<open><\<close>).\<close>

fun num_le :: "number \<Rightarrow> number \<Rightarrow> bool" where
  "num_le (Fin a) (Fin b) = (a \<le> b)"
| "num_le a Infinity = True"
| "num_le Infinity (Fin b) = False"

text \<open>\<open>a + w\<close> for a finite \<open>w\<close>.\<close>

fun num_add :: "number \<Rightarrow> rat \<Rightarrow> number" where
  "num_add (Fin a) w = Fin (a + w)"
| "num_add Infinity w = Infinity"

text \<open>
  A JavaScript \<open>Map\<close> iterates in insertion order and \<open>set\<close> on an existing key keeps the
  key's position: an association list with \<open>map_of\<close> for \<open>get\<close> and \<open>AList.update\<close> for
  \<open>set\<close>.  A JavaScript \<open>Set\<close> of strings is a duplicate-free list in insertion order.
\<close>

type_synonym ('k, 'v) jsmap = "('k \<times> 'v) list"

definition has :: "('k, 'v) jsmap \<Rightarrow> 'k \<Rightarrow> bool" where
  "has m k = (map_of m k \<noteq> None)"

definition set_add :: "string list \<Rightarrow> string \<Rightarrow> string list" where
  "set_add U k = (if k \<in> set U then U else U @ [k])"

section \<open>The graph (lib/graph)\<close>

record Station =
  stationId :: string
  name :: string
  rent :: rat
  safetyScore :: rat

record Edge =
  to :: string
  weight :: rat

record Graph =
  nodes :: "(string, Station) jsmap"
  edges :: "(string, Edge list) jsmap"

definition emptyGraph :: Graph where
  "emptyGraph = \<lparr>nodes = [], edges = []\<rparr>"

definition addNode :: "Graph \<Rightarrow> Station \<Rightarrow> Graph" where
  "addNode g station =
     (if \<not> has (nodes g) (stationId station)
      then g\<lparr>nodes := AList.update (stationId station) station (nodes g),
             edges := AList.update (stationId station) [] (edges g)\<rparr>
      else g)"

text \<open>
  \<open>this.edges.get(k)?.push(e)\<close>: when \<open>k\<close> has an adjacency list the entry is appended to
  it in place, otherwise the optional chaining skips the call.
\<close>

definition push_edge :: "Graph \<Rightarrow> string \<Rightarrow> Edge \<Rightarrow> Graph" where
  "push_edge g k e =
     (case map_of (edges g) k of
        None \<Rightarrow> g
      | Some es \<Rightarrow> g\<lparr>edges := AList.update k (es @ [e]) (edges g)\<rparr>)"

definition addEdge :: "Graph \<Rightarrow> string \<Rightarrow> string \<Rightarrow> rat \<Rightarrow> Graph" where
  "addEdge g from dest w =
     push_edge (push_edge g from \<lparr>to = dest, weight = w\<rparr>) dest \<lparr>to = from, weight = w\<rparr>"

definition getStation :: "Graph \<Rightarrow> string \<Rightarrow> Station option" where
  "getStation g i = map_of (nodes g) i"

definition getAllStations :: "Graph \<Rightarrow> Station list" where
  "getAllStations g = map snd (nodes g)"

text \<open>\<open>graph.edges.get(id) || []\<close>\<close>

definition adjacency :: "Graph \<Rightarrow> string \<Rightarrow> Edge list" where
  "adjacency g k = (case map_of (edges g) k of None \<Rightarrow> [] | Some es \<Rightarrow> es)"

section \<open>Shortest distances (dijkstra)\<close>

type_synonym distances = "(string, number) jsmap"

text \<open>The first \<open>forEach\<close>: every station gets \<open>Infinity\<close> and joins \<open>unvisited\<close>.\<close>

definition init_step :: "distances \<times> string list \<Rightarrow> string \<times> Station \<Rightarrow> distances \<times> string list" where
  "init_step acc kv = (AList.update (fst kv) Infinity (fst acc), set_add (snd acc) (fst kv))"

definition dijkstra_init :: "Graph \<Rightarrow> distances \<times> string list" where
  "dijkstra_init g = foldl init_step ([], []) (nodes g)"

text \<open>
  The selection \<open>forEach\<close>: the state is \<open>(currentId, minDistance)\<close>.  \<open>distances.get(id)!\<close>
  of an absent key is \<open>undefined\<close>, and \<open>undefined < x\<close> is false.
\<close>

definition select_step :: "distances \<Rightarrow> string option \<times> number \<Rightarrow> string \<Rightarrow> string option \<times> number" where
  "select_step D acc i =
     (case map_of D i of
        None \<Rightarrow> acc
      | Some d \<Rightarrow> if num_less d (snd acc) then (Some i, d) else acc)"

definition select_min :: "distances \<Rightarrow> string list \<Rightarrow> string option \<times> number" where
  "select_min D U = foldl (select_step D) (None, Infinity) U"

text \<open>One pass of the inner \<open>for\<close> loop body, for the edge \<open>e\<close> out of the selected station.\<close>

definition relax_edge :: "string list \<Rightarrow> rat \<Rightarrow> distances \<Rightarrow> Edge \<Rightarrow> distances" where
  "relax_edge U minDistance D e =
     (if to e \<in> set U
      then (let newDist = Fin (minDistance + weight e)
            in case map_of D (to e) of
                 None \<Rightarrow> D
               | Some d \<Rightarrow> if num_less newDist d then AList.update (to e) newDist D else D)
      else D)"

lemma select_min_mem_aux:
  "foldl (select_step D) acc U = (Some c, m) \<Longrightarrow> fst acc = Some c \<or> c \<in> set U"
proof (induction U arbitrary: acc)
  case Nil
  then show ?case by simp
next
  case (Cons i U)
  from Cons.IH[of "select_step D acc i"] Cons.prems
  have "fst (select_step D acc i) = Some c \<or> c \<in> set U" by simp
  then show ?case
    by (auto simp: select_step_def split: option.splits if_splits)
qed

lemma select_min_mem: "select_min D U = (Some c, m) \<Longrightarrow> c \<in> set U"
  using select_min_mem_aux[of D "(None, Infinity)" U c m] by (simp add: select_min_def)

text \<open>
  The \<open>while (unvisited.size > 0)\<close> loop.  It stops when no unvisited station has a
  finite tentative distance; otherwise the selected station leaves \<open>unvisited\<close> and its
  edges are relaxed.
\<close>

function dijkstra_loop :: "Graph \<Rightarrow> distances \<Rightarrow> string list \<Rightarrow> distances" where
  "dijkstra_loop g D U =
     (if length U > 0
      then (case select_min D U of
              (None, minDistance) \<Rightarrow> D
            | (Some currentId, Infinity) \<Rightarrow> D
            | (Some currentId, Fin minDistance) \<Rightarrow>
                dijkstra_loop g
                  (foldl (relax_edge (removeAll currentId U) minDistance) D (adjacency g currentId))
                  (removeAll currentId U))
      else D)"
  by pat_completeness auto
termination
  apply (relation "measure (\<lambda>(g, D, U). length U)")
   apply simp
  apply (simp add: length_removeAll_less select_min_mem[OF sym])
  done

declare dijkstra_loop.simps [simp del]

definition dijkstra :: "Graph \<Rightarrow> string \<Rightarrow> distances" where
  "dijkstra g startId =
     (let init = dijkstra_init g
      in dijkstra_loop g (AList.update startId (Fin 0) (fst init)) (snd init))"

section \<open>The ranking (App.calculateResults)\<close>

datatype AppStep = INPUT | LOADING | RESULTS

record SearchParams =
  workplaceA :: string
  workplaceB :: string
  budget :: rat
  ratio :: rat
  lambda :: rat

text \<open>
  The three template strings of \<open>generateMockAIReasons\<close>, each carrying the station name
  that the template interpolates.
\<close>

datatype aiReason = Balanced string | NearA string | NearB string

record StationResult = Station +
  timeA :: rat
  timeB :: rat
  score :: rat
  aiReason :: aiReason

record App =
  step :: AppStep
  graph :: Graph
  params :: SearchParams
  results :: "StationResult list"

definition generateMockAIReasons :: "string \<Rightarrow> rat \<Rightarrow> rat \<Rightarrow> aiReason" where
  "generateMockAIReasons nm tA tB =
     (let diff = \<bar>tA - tB\<bar>
      in if diff \<le> 5 then Balanced nm
         else if tA < tB then NearA nm
         else NearB nm)"

text \<open>The weights \<open>(wA, wB)\<close> derived from \<open>ratio\<close>.\<close>

definition weights :: "rat \<Rightarrow> rat \<times> rat" where
  "weights r =
     (if r < 50 then (1 + (50 - r) / 25, max (1 / 2) (1 - (50 - r) / 50))
      else if r > 50 then (max (1 / 2) (1 - (r - 50) / 50), 1 + (r - 50) / 25)
      else (1, 1))"

text \<open>
  The body of \<open>stations.forEach\<close>: \<open>None\<close> is the early \<open>return\<close> (a distance that is
  \<open>undefined\<close> or \<open>Infinity\<close>), \<open>Some\<close> is the entry pushed onto \<open>scoredStations\<close>.
\<close>

definition score_station ::
  "rat \<Rightarrow> rat \<Rightarrow> rat \<Rightarrow> rat \<Rightarrow> distances \<Rightarrow> distances \<Rightarrow> Station \<Rightarrow> StationResult option" where
  "score_station wA wB lam bud distA distB station =
     (case map_of distA (stationId station) of
        None \<Rightarrow> None
      | Some Infinity \<Rightarrow> None
      | Some (Fin tA) \<Rightarrow>
          (case map_of distB (stationId station) of
             None \<Rightarrow> None
           | Some Infinity \<Rightarrow> None
           | Some (Fin tB) \<Rightarrow>
               (let scoreSum = wA * tA + wB * tB;
                    scoreFair = max (wA * tA) (wB * tB);
                    weightedTimeScore = lam * scoreFair + (1 - lam) * scoreSum;
                    displayScore = 100 - (weightedTimeScore / 120) * 100;
                    displayScore' = (if rent station > bud then displayScore - 15 else displayScore)
                in Some (Station.extend station
                     (StationResult.fields tA tB (max 0 (min 100 displayScore'))
                        (generateMockAIReasons (name station) tA tB))))))"

definition scoredStations :: "App \<Rightarrow> StationResult list" where
  "scoredStations app =
     (let distA = dijkstra (graph app) (workplaceA (params app));
          distB = dijkstra (graph app) (workplaceB (params app));
          w = weights (ratio (params app))
      in List.map_filter
           (score_station (fst w) (snd w) (lambda (params app)) (budget (params app)) distA distB)
           (getAllStations (graph app)))"

text \<open>
  \<open>Array.prototype.sort\<close> is stable; with the comparator \<open>b.score - a.score\<close> it is the
  stable sort on the key \<open>- score\<close>.  \<open>slice(0, 10)\<close> is \<open>take 10\<close>.
\<close>

definition sort_by_score :: "StationResult list \<Rightarrow> StationResult list" where
  "sort_by_score rs = sort_key (\<lambda>r. - score r) rs"

definition calculateResults :: "App \<Rightarrow> App" where
  "calculateResults app = app\<lparr>results := take 10 (sort_by_score (scoredStations app))\<rparr>"

text \<open>
  \<open>handleSearch\<close> up to the point where it schedules \<open>calculateResults\<close>: \<open>None\<close> is an
  \<open>alert\<close> followed by \<open>return\<close>, \<open>Some\<close> is the state after the timer has fired.
\<close>

definition handleSearch :: "App \<Rightarrow> App option" where
  "handleSearch app =
     (if workplaceA (params app) = [] \<or> workplaceB (params app) = [] then None
      else if \<not> has (nodes (graph app)) (workplaceA (params app))
              \<or> \<not> has (nodes (graph app)) (workplaceB (params app)) then None
      else Some ((calculateResults (app\<lparr>step := LOADING\<rparr>))\<lparr>step := RESULTS\<rparr>))"

section \<open>Notions used in the statements\<close>

text \<open>The tentative distance of \<open>k\<close>, reading an absent key as \<open>Infinity\<close>.\<close>

definition val :: "distances \<Rightarrow> string \<Rightarrow> number" where
  "val D k = (case map_of D k of None \<Rightarrow> Infinity | Some d \<Rightarrow> d)"

text \<open>The keys of \<open>graph.nodes\<close>.\<close>

definition station_ids :: "Graph \<Rightarrow> string set" where
  "station_ids g = set (map fst (nodes g))"

text \<open>Every stored adjacency entry carries a weight that is not negative.\<close>

definition nonneg_weights :: "Graph \<Rightarrow> bool" where
  "nonneg_weights g = (\<forall>kv\<in>set (edges g). \<forall>e\<in>set (snd kv). 0 \<le> weight e)"

text \<open>
  The loop invariant of \<open>dijkstra\<close>: unvisited ids are stations, every station has a
  tentative distance, a visited station is never farther than an unvisited one, and every
  edge out of a visited station has been relaxed.
\<close>

definition dijkstra_inv :: "Graph \<Rightarrow> distances \<Rightarrow> string list \<Rightarrow> bool" where
  "dijkstra_inv g D U \<longleftrightarrow>
     set U \<subseteq> station_ids g
   \<and> (\<forall>x\<in>station_ids g. map_of D x \<noteq> None)
   \<and> (\<forall>x\<in>station_ids g - set U. \<forall>y\<in>set U. num_le (val D x) (val D y))
   \<and> (\<forall>x\<in>station_ids g - set U. \<forall>e\<in>set (adjacency g x).
         to e \<in> station_ids g \<longrightarrow> num_le (val D (to e)) (num_add (val D x) (weight e)))"

text \<open>What the loop establishes: every edge between stations is relaxed.\<close>

definition relaxed :: "Graph \<Rightarrow> distances \<Rightarrow> bool" where
  "relaxed g D \<longleftrightarrow>
     (\<forall>x\<in>station_ids g. map_of D x \<noteq> None)
   \<and> (\<forall>x\<in>station_ids g. \<forall>e\<in>set (adjacency g x).
         to e \<in> station_ids g \<longrightarrow> num_le (val D (to e)) (num_add (val D x) (weight e)))"

text \<open>
  The source keeps distance 0: while it is unvisited it is the only unvisited id with a
  finite tentative distance.
\<close>

definition source_inv :: "string \<Rightarrow> distances \<Rightarrow> string list \<Rightarrow> bool" where
  "source_inv s D U \<longleftrightarrow>
     map_of D s = Some (Fin 0) \<and> (s \<in> set U \<longrightarrow> (\<forall>y\<in>set U. y \<noteq> s \<longrightarrow> val D y = Infinity))"

text \<open>
  A construction history: the calls made on a fresh \<open>Graph\<close>, in order.  Every graph the
  class can reach is \<open>run_calls emptyGraph cs\<close> for some \<open>cs\<close>.
\<close>

datatype call = AddNode Station | AddEdge string string rat

fun run_call :: "Graph \<Rightarrow> call \<Rightarrow> Graph" where
  "run_call g (AddNode station) = addNode g station"
| "run_call g (AddEdge a b w) = addEdge g a b w"

definition run_calls :: "Graph \<Rightarrow> call list \<Rightarrow> Graph" where
  "run_calls g cs = foldl run_call g cs"

text \<open>
  The histories in which every \<open>addEdge\<close> names two stations that were added before it, as
  \<open>initializeGraph\<close> does (\<open>addLine\<close> adds the stations of a line before its edges).
\<close>

fun endpoints_known :: "Graph \<Rightarrow> call list \<Rightarrow> bool" where
  "endpoints_known g [] = True"
| "endpoints_known g (AddNode station # cs) = endpoints_known (addNode g station) cs"
| "endpoints_known g (AddEdge a b w # cs) =
     (has (nodes g) a \<and> has (nodes g) b \<and> endpoints_known (addEdge g a b w) cs)"

text \<open>Both maps of the graph have the same keys.\<close>

definition same_keys :: "Graph \<Rightarrow> bool" where
  "same_keys g = (fst ` set (edges g) = fst ` set (nodes g))"

text \<open>Every adjacency entry has its mirror entry, with the same weight.\<close>

definition symmetric :: "Graph \<Rightarrow> bool" where
  "symmetric g =
     (\<forall>kv\<in>set (edges g). \<forall>e\<in>set (adjacency g (fst kv)).
        \<lparr>to = fst kv, weight = weight e\<rparr> \<in> set (adjacency g (to e)))"

text \<open>A station qualifies for scoring when both distance maps hold a finite value for it.\<close>

definition finite_dist :: "distances \<Rightarrow> string \<Rightarrow> bool" where
  "finite_dist D k = (case map_of D k of None \<Rightarrow> False | Some Infinity \<Rightarrow> False | Some (Fin t) \<Rightarrow> True)"

definition qualifies :: "App \<Rightarrow> Station \<Rightarrow> bool" where
  "qualifies app station =
     (finite_dist (dijkstra (graph app) (workplaceA (params app))) (stationId station)
      \<and> finite_dist (dijkstra (graph app) (workplaceB (params app))) (stationId station))"

text \<open>
  The example network of the specification: stations X, Y and Z in a line, X-Y of weight 3
  and Y-Z of weight 4.  W is a fourth station with no edge.
\<close>

definition exampleStation :: "string \<Rightarrow> rat \<Rightarrow> Station" where
  "exampleStation i r = \<lparr>stationId = i, name = i, rent = r, safetyScore = 4\<rparr>"

definition lineXYZ :: Graph where
  "lineXYZ = run_calls emptyGraph
     [AddNode (exampleStation ''X'' 100000), AddNode (exampleStation ''Y'' 180000),
      AddNode (exampleStation ''Z'' 120000), AddNode (exampleStation ''W'' 90000),
      AddEdge ''X'' ''Y'' 3, AddEdge ''Y'' ''Z'' 4]"

definition exampleApp :: App where
  "exampleApp =
     \<lparr>step = INPUT, graph = lineXYZ,
      params = \<lparr>workplaceA = ''X'', workplaceB = ''Z'', budget = 150000, ratio = 50, lambda = 1 / 2\<rparr>,
      results = []\<rparr>"

text \<open>The entry that \<open>calculateResults\<close> produces for station Y of the example.\<close>

definition exampleResultY :: StationResult where
  "exampleResultY =
     \<lparr>stationId = ''Y'', name = ''Y'', rent = 180000, safetyScore = 4,
      timeA = 3, timeB = 4, score = 965 / 12, aiReason = Balanced ''Y''\<rparr>"

text \<open>The entries for stations X and Z of the example; their scores are equal.\<close>

definition exampleResultX :: StationResult where
  "exampleResultX =
     \<lparr>stationId = ''X'', name = ''X'', rent = 100000, safetyScore = 4,
      timeA = 0, timeB = 7, score = 565 / 6, aiReason = NearA ''X''\<rparr>"

definition exampleResultZ :: StationResult where
  "exampleResultZ =
     \<lparr>stationId = ''Z'', name = ''Z'', rent = 120000, safetyScore = 4,
      timeA = 7, timeB = 0, score = 565 / 6, aiReason = NearB ''Z''\<rparr>"

text \<open>
  What ECMAScript requires of \<open>Array.prototype.sort\<close> called with the comparator
  \<open>(a, b) => b.score - a.score\<close>: the result is a permutation of the array, in descending
  order of score, and stable (entries of equal score keep their order).  The algorithm is
  left to the implementation.
\<close>

definition js_sort_result :: "StationResult list \<Rightarrow> StationResult list \<Rightarrow> bool" where
  "js_sort_result xs ys \<longleftrightarrow>
     mset ys = mset xs
   \<and> sorted_wrt (\<lambda>a b. score b \<le> score a) ys
   \<and> (\<forall>r\<in>set xs. filter (\<lambda>x. score x = score r) ys = filter (\<lambda>x. score x = score r) xs)"


section \<open>Weights\<close>

text \<open>
  C10.  Whatever the ratio (in particular for every ratio between 0 and 100), both derived
  weights are at least one half, and the favoured commuter's weight is at least one: for
  a ratio below 50 that is \<open>wA\<close>, for a ratio above 50 it is \<open>wB\<close>, and at 50 both
  weights are exactly one.
\<close>

theorem weights_bounds:
  assumes "0 \<le> r" and "r \<le> 100"
  shows "1 / 2 \<le> fst (weights r) \<and> 1 / 2 \<le> snd (weights r)
       \<and> (r < 50 \<longrightarrow> 1 \<le> fst (weights r))
       \<and> (50 < r \<longrightarrow> 1 \<le> snd (weights r))
       \<and> (r = 50 \<longrightarrow> weights r = (1, 1))"
  by (auto simp: weights_def max_def)

theorem weights_bounds_witness:
  "(0::rat) \<le> 20 \<and> (20::rat) \<le> 100
   \<and> 1 / 2 \<le> fst (weights 20) \<and> 1 / 2 \<le> snd (weights 20) \<and> 1 \<le> fst (weights 20)"
  using weights_bounds[of 20] by simp

section \<open>Shortest distances: the loop invariant\<close>

lemma num_le_refl [simp]: "num_le a a"
  by (cases a) auto

lemma num_le_trans: "num_le a b \<Longrightarrow> num_le b c \<Longrightarrow> num_le a c"
  by (cases a; cases b; cases c) auto

lemma num_less_imp_le: "num_less a b \<Longrightarrow> num_le a b"
  by (cases a; cases b) auto

lemma num_not_less: "\<not> num_less a b \<Longrightarrow> num_le b a"
  by (cases a; cases b) auto

lemma num_less_le_trans: "num_less a b \<Longrightarrow> num_le b c \<Longrightarrow> num_less a c"
  by (cases a; cases b; cases c) auto

lemma num_le_Infinity [simp]: "num_le Infinity a \<longleftrightarrow> a = Infinity"
  by (cases a) auto

lemma num_le_top [simp]: "num_le a Infinity"
  by (cases a) auto

lemma select_step_val:
  "select_step D acc i = (if num_less (val D i) (snd acc) then (Some i, val D i) else acc)"
  by (simp add: select_step_def val_def split: option.splits)

lemma select_fold:
  "foldl (select_step D) acc U = (r, m) \<Longrightarrow>
     num_le m (snd acc) \<and> (\<forall>y\<in>set U. num_le m (val D y))
     \<and> ((r, m) = acc \<or> (\<exists>c\<in>set U. r = Some c \<and> val D c = m \<and> num_less m (snd acc)))"
proof (induction U arbitrary: acc)
  case Nil
  then show ?case by simp
next
  case (Cons i U)
  let ?acc = "select_step D acc i"
  from Cons.prems have "foldl (select_step D) ?acc U = (r, m)" by simp
  from Cons.IH[OF this]
  have a: "num_le m (snd ?acc)" and b: "\<forall>y\<in>set U. num_le m (val D y)"
    and c: "(r, m) = ?acc \<or> (\<exists>c\<in>set U. r = Some c \<and> val D c = m \<and> num_less m (snd ?acc))"
    by blast+
  have d: "num_le (snd ?acc) (snd acc)" and e: "num_le (snd ?acc) (val D i)"
    by (auto simp: select_step_val num_less_imp_le num_not_less)
  have f: "?acc = acc \<or> (?acc = (Some i, val D i) \<and> num_less (val D i) (snd acc))"
    by (auto simp: select_step_val)
  from a d have 1: "num_le m (snd acc)" by (rule num_le_trans)
  from a e have 2: "num_le m (val D i)" by (rule num_le_trans)
  have 3: "(r, m) = acc \<or> (\<exists>c\<in>set (i # U). r = Some c \<and> val D c = m \<and> num_less m (snd acc))"
  proof (cases "(r, m) = ?acc")
    case True
    with f show ?thesis by fastforce
  next
    case False
    with c obtain c' where c': "c' \<in> set U" "r = Some c'" "val D c' = m" "num_less m (snd ?acc)"
      by blast
    from c'(4) d have "num_less m (snd acc)" by (rule num_less_le_trans)
    with c' show ?thesis by auto
  qed
  from 1 2 3 b show ?case by simp
qed

lemma select_min_Some:
  assumes "select_min D U = (Some c, Fin m)"
  shows "c \<in> set U" and "val D c = Fin m" and "\<forall>y\<in>set U. num_le (Fin m) (val D y)"
  using select_fold[of D "(None, Infinity)" U "Some c" "Fin m"] assms
  by (auto simp: select_min_def)

lemma select_min_stop:
  assumes "select_min D U = (r, Infinity)"
  shows "\<forall>y\<in>set U. val D y = Infinity"
  using select_fold[of D "(None, Infinity)" U r Infinity] assms
  by (auto simp: select_min_def)

lemma select_min_None:
  assumes "select_min D U = (None, m)"
  shows "m = Infinity"
  using select_fold[of D "(None, Infinity)" U None m] assms
  by (auto simp: select_min_def)

lemma relax_edge_val:
  "val (relax_edge U m D e) x =
     (if x = to e \<and> to e \<in> set U \<and> map_of D x \<noteq> None \<and> num_less (Fin (m + weight e)) (val D x)
      then Fin (m + weight e) else val D x)"
  by (auto simp: relax_edge_def val_def Let_def update_conv' split: option.splits)

lemma relax_edge_dom:
  "(map_of (relax_edge U m D e) x = None) = (map_of D x = None)"
  by (auto simp: relax_edge_def Let_def update_conv' split: option.splits)

lemma relax_fold_dom:
  "(map_of (foldl (relax_edge U m) D es) x = None) = (map_of D x = None)"
  by (induction es arbitrary: D) (simp_all add: relax_edge_dom)

lemma relax_fold_visited:
  "x \<notin> set U \<Longrightarrow> val (foldl (relax_edge U m) D es) x = val D x"
  by (induction es arbitrary: D) (auto simp: relax_edge_val)

lemma relax_fold_le:
  "num_le (val (foldl (relax_edge U m) D es) x) (val D x)"
proof (induction es arbitrary: D)
  case Nil
  show ?case by simp
next
  case (Cons e es)
  have "num_le (val (relax_edge U m D e) x) (val D x)"
    by (auto simp: relax_edge_val num_less_imp_le)
  with Cons[of "relax_edge U m D e"] show ?case
    by (auto intro: num_le_trans)
qed

lemma relax_fold_lower:
  "\<forall>e\<in>set es. 0 \<le> weight e \<Longrightarrow> num_le (Fin m) (val D x) \<Longrightarrow>
     num_le (Fin m) (val (foldl (relax_edge U m) D es) x)"
proof (induction es arbitrary: D)
  case Nil
  then show ?case by simp
next
  case (Cons e es)
  have "num_le (Fin m) (val (relax_edge U m D e) x)"
    using Cons.prems by (simp add: relax_edge_val)
  with Cons.IH[of "relax_edge U m D e"] Cons.prems show ?case by simp
qed

lemma relax_fold_relaxed:
  "e \<in> set es \<Longrightarrow> to e \<in> set U \<Longrightarrow> map_of D (to e) \<noteq> None \<Longrightarrow>
     num_le (val (foldl (relax_edge U m) D es) (to e)) (Fin (m + weight e))"
proof (induction es arbitrary: D)
  case Nil
  then show ?case by simp
next
  case (Cons e' es)
  let ?D = "relax_edge U m D e'"
  show ?case
  proof (cases "e = e'")
    case True
    have "num_le (val ?D (to e)) (Fin (m + weight e))"
      using Cons.prems True by (simp add: relax_edge_val num_not_less)
    moreover have "num_le (val (foldl (relax_edge U m) ?D es) (to e)) (val ?D (to e))"
      by (rule relax_fold_le)
    ultimately show ?thesis by (auto intro: num_le_trans)
  next
    case False
    with Cons.prems have "e \<in> set es" by simp
    moreover have "map_of ?D (to e) \<noteq> None"
      using Cons.prems by (simp add: relax_edge_dom)
    ultimately show ?thesis using Cons.IH[of ?D] Cons.prems by simp
  qed
qed

lemma nonneg_adjacency:
  assumes "nonneg_weights g" and "e \<in> set (adjacency g k)"
  shows "0 \<le> weight e"
proof (cases "map_of (edges g) k")
  case None
  with assms(2) show ?thesis by (simp add: adjacency_def)
next
  case (Some es)
  then have "(k, es) \<in> set (edges g)" by (rule map_of_SomeD)
  moreover from Some assms(2) have "e \<in> set es" by (simp add: adjacency_def)
  ultimately show ?thesis using assms(1) unfolding nonneg_weights_def by fastforce
qed

lemma inv_step:
  assumes inv: "dijkstra_inv g D U" and nn: "nonneg_weights g"
    and sel: "select_min D U = (Some c, Fin m)"
  shows "dijkstra_inv g (foldl (relax_edge (removeAll c U) m) D (adjacency g c)) (removeAll c U)"
proof -
  let ?U = "removeAll c U"
  let ?D = "foldl (relax_edge ?U m) D (adjacency g c)"
  note s = select_min_Some[OF sel]
  from inv have sub: "set U \<subseteq> station_ids g"
    and dom: "\<forall>x\<in>station_ids g. map_of D x \<noteq> None"
    and mono: "\<forall>x\<in>station_ids g - set U. \<forall>y\<in>set U. num_le (val D x) (val D y)"
    and rel: "\<forall>x\<in>station_ids g - set U. \<forall>e\<in>set (adjacency g x).
         to e \<in> station_ids g \<longrightarrow> num_le (val D (to e)) (num_add (val D x) (weight e))"
    by (auto simp: dijkstra_inv_def)
  have wpos: "\<forall>e\<in>set (adjacency g c). 0 \<le> weight e"
    using nn by (auto dest: nonneg_adjacency)
  have cval: "val ?D c = Fin m"
    using s(2) by (simp add: relax_fold_visited)
  have old: "val ?D x = val D x" if "x \<notin> set U" for x
    using that by (simp add: relax_fold_visited)
  have old_le: "num_le (val D x) (Fin m)" if "x \<in> station_ids g" "x \<notin> set U" for x
    using mono that s(1) s(2) by (metis DiffI)
  have low: "num_le (Fin m) (val ?D y)" if "y \<in> set U" for y
    using relax_fold_lower[OF wpos, of m D y ?U] s(3) that by simp
  have 1: "set ?U \<subseteq> station_ids g" using sub by auto
  have 2: "\<forall>x\<in>station_ids g. map_of ?D x \<noteq> None"
    using dom by (simp add: relax_fold_dom)
  have 3: "num_le (val ?D x) (val ?D y)" if x: "x \<in> station_ids g - set ?U" and y: "y \<in> set ?U" for x y
  proof (cases "x = c")
    case True
    with cval low[of y] y show ?thesis by simp
  next
    case False
    with x have xv: "x \<in> station_ids g" "x \<notin> set U" by auto
    from old_le[OF xv] old[OF xv(2)] have "num_le (val ?D x) (Fin m)" by simp
    moreover from y have "num_le (Fin m) (val ?D y)" using low[of y] by simp
    ultimately show ?thesis by (rule num_le_trans)
  qed
  have 4: "num_le (val ?D (to e)) (num_add (val ?D x) (weight e))"
    if x: "x \<in> station_ids g - set ?U" and e: "e \<in> set (adjacency g x)" and t: "to e \<in> station_ids g"
    for x e
  proof (cases "x = c")
    case True
    from e True wpos have w: "0 \<le> weight e" by simp
    show ?thesis
    proof (cases "to e \<in> set ?U")
      case True
      with relax_fold_relaxed[of e "adjacency g c" ?U D m] e \<open>x = c\<close> dom t cval
      show ?thesis by simp
    next
      case False
      have "num_le (val ?D (to e)) (Fin m)"
      proof (cases "to e = c")
        case True
        with cval show ?thesis by simp
      next
        case False
        with \<open>to e \<notin> set ?U\<close> have nu: "to e \<notin> set U" by simp
        from old_le[OF t nu] old[OF nu] show ?thesis by simp
      qed
      moreover have "num_le (Fin m) (Fin (m + weight e))" using w by simp
      ultimately have "num_le (val ?D (to e)) (Fin (m + weight e))" by (rule num_le_trans)
      with cval \<open>x = c\<close> show ?thesis by simp
    qed
  next
    case False
    with x have xv: "x \<in> station_ids g" "x \<notin> set U" by auto
    from rel xv e t have "num_le (val D (to e)) (num_add (val D x) (weight e))" by blast
    moreover have "num_le (val ?D (to e)) (val D (to e))" by (rule relax_fold_le)
    ultimately have "num_le (val ?D (to e)) (num_add (val D x) (weight e))"
      by (auto intro: num_le_trans)
    with old[OF xv(2)] show ?thesis by simp
  qed
  from 1 2 3 4 show ?thesis unfolding dijkstra_inv_def by blast
qed

lemma inv_stop:
  assumes inv: "dijkstra_inv g D U" and stop: "\<forall>y\<in>set U. val D y = Infinity"
  shows "relaxed g D"
proof -
  have "num_le (val D (to e)) (num_add (val D x) (weight e))"
    if x: "x \<in> station_ids g" and e: "e \<in> set (adjacency g x)" and t: "to e \<in> station_ids g" for x e
  proof (cases "x \<in> set U")
    case True
    with stop have "val D x = Infinity" by simp
    then show ?thesis by simp
  next
    case False
    with inv x e t show ?thesis unfolding dijkstra_inv_def by blast
  qed
  with inv show ?thesis unfolding relaxed_def dijkstra_inv_def by blast
qed

lemma loop_relaxed:
  "dijkstra_inv g D U \<Longrightarrow> nonneg_weights g \<Longrightarrow> relaxed g (dijkstra_loop g D U)"
proof (induction g D U rule: dijkstra_loop.induct)
  case (1 g D U)
  show ?case
  proof (cases "select_min D U")
    case (Pair r mm)
    show ?thesis
    proof (cases "0 < length U \<and> (\<exists>c m. r = Some c \<and> mm = Fin m)")
      case True
      then obtain c m where cm: "r = Some c" "mm = Fin m" and len: "0 < length U" by blast
      from Pair cm have sel: "select_min D U = (Some c, Fin m)" by simp
      have "dijkstra_inv g (foldl (relax_edge (removeAll c U) m) D (adjacency g c)) (removeAll c U)"
        using inv_step[OF "1.prems"(1) "1.prems"(2) sel] .
      from "1.IH"[OF len sel[symmetric] refl refl this "1.prems"(2)]
      show ?thesis using len sel by (subst dijkstra_loop.simps) simp
    next
      case False
      have stop: "\<forall>y\<in>set U. val D y = Infinity"
      proof (cases "U = []")
        case True
        then show ?thesis by simp
      next
        case ne: False
        with False have "r = None \<or> mm = Infinity" by (cases r; cases mm) auto
        then have "mm = Infinity" using select_min_None[of D U mm] Pair by auto
        with Pair select_min_stop[of D U r] show ?thesis by simp
      qed
      have "dijkstra_loop g D U = D"
        using False Pair by (subst dijkstra_loop.simps) (auto split: option.splits number.splits)
      with inv_stop[OF "1.prems"(1) stop] show ?thesis by simp
    qed
  qed
qed

lemma has_station_ids: "has (nodes g) k \<longleftrightarrow> k \<in> station_ids g"
  by (simp add: has_def station_ids_def map_of_eq_None_iff)

lemma init_fold:
  "foldl init_step acc kvs = (D', U') \<Longrightarrow>
     set U' = set (snd acc) \<union> fst ` set kvs
   \<and> (\<forall>x. map_of D' x = (if x \<in> fst ` set kvs then Some Infinity else map_of (fst acc) x))"
proof (induction kvs arbitrary: acc)
  case Nil
  then show ?case by auto
next
  case (Cons kv kvs)
  from Cons.prems have "foldl init_step (init_step acc kv) kvs = (D', U')" by simp
  from Cons.IH[OF this] show ?case
    by (auto simp: init_step_def set_add_def update_conv')
qed

lemma init_unvisited: "set (snd (dijkstra_init g)) = station_ids g"
  using init_fold[of "([], [])" "nodes g" "fst (dijkstra_init g)" "snd (dijkstra_init g)"]
  by (simp add: dijkstra_init_def station_ids_def)

lemma init_distances:
  "map_of (fst (dijkstra_init g)) x = (if x \<in> station_ids g then Some Infinity else None)"
  using init_fold[of "([], [])" "nodes g" "fst (dijkstra_init g)" "snd (dijkstra_init g)"]
  by (simp add: dijkstra_init_def station_ids_def)

lemma init_inv:
  "dijkstra_inv g (AList.update s (Fin 0) (fst (dijkstra_init g))) (snd (dijkstra_init g))"
  by (simp add: dijkstra_inv_def init_unvisited init_distances update_conv')

lemma dijkstra_relaxed: "nonneg_weights g \<Longrightarrow> relaxed g (dijkstra g s)"
  unfolding dijkstra_def Let_def by (rule loop_relaxed[OF init_inv])

lemma relaxedD:
  assumes "relaxed g D" and "x \<in> station_ids g" and "e \<in> set (adjacency g x)"
    and "to e \<in> station_ids g"
  shows "\<exists>dx dy. map_of D x = Some dx \<and> map_of D (to e) = Some dy \<and> num_le dy (num_add dx (weight e))"
proof -
  from assms obtain dx dy where "map_of D x = Some dx" "map_of D (to e) = Some dy"
    unfolding relaxed_def by fastforce
  moreover from assms have "num_le (val D (to e)) (num_add (val D x) (weight e))"
    unfolding relaxed_def by blast
  ultimately show ?thesis by (simp add: val_def)
qed

text \<open>
  C1.  For every graph whose stored weights are not negative, every source, and every
  stored undirected edge between stations \<open>u\<close> and \<open>v\<close> of weight \<open>w\<close> (both directed
  entries are present), the returned distance map holds a value for \<open>u\<close> and for \<open>v\<close>, and
  \<open>dist[v] <= dist[u] + w\<close> and \<open>dist[u] <= dist[v] + w\<close>, where \<open>Infinity\<close> marks
  an unreachable station.
\<close>

theorem dijkstra_triangle:
  assumes nn: "nonneg_weights g"
    and u: "has (nodes g) u" and v: "has (nodes g) v"
    and uv: "\<lparr>to = v, weight = w\<rparr> \<in> set (adjacency g u)"
    and vu: "\<lparr>to = u, weight = w\<rparr> \<in> set (adjacency g v)"
  shows "\<exists>du dv. map_of (dijkstra g s) u = Some du \<and> map_of (dijkstra g s) v = Some dv
           \<and> num_le dv (num_add du w) \<and> num_le du (num_add dv w)"
proof -
  note r = dijkstra_relaxed[OF nn, of s]
  from relaxedD[OF r _ uv] u v obtain du dv where
    1: "map_of (dijkstra g s) u = Some du" "map_of (dijkstra g s) v = Some dv" "num_le dv (num_add du w)"
    by (auto simp: has_station_ids)
  from relaxedD[OF r _ vu] u v 1 have "num_le du (num_add dv w)"
    by (auto simp: has_station_ids)
  with 1 show ?thesis by blast
qed

theorem dijkstra_triangle_witness:
  "nonneg_weights lineXYZ \<and> has (nodes lineXYZ) ''X'' \<and> has (nodes lineXYZ) ''Y''
   \<and> \<lparr>to = ''Y'', weight = 3\<rparr> \<in> set (adjacency lineXYZ ''X'')
   \<and> \<lparr>to = ''X'', weight = 3\<rparr> \<in> set (adjacency lineXYZ ''Y'')
   \<and> (\<exists>du dv. map_of (dijkstra lineXYZ ''Z'') ''X'' = Some du
          \<and> map_of (dijkstra lineXYZ ''Z'') ''Y'' = Some dv
          \<and> num_le dv (num_add du 3) \<and> num_le du (num_add dv 3))"
proof -
  have h1: "nonneg_weights lineXYZ" by code_simp
  have h2: "has (nodes lineXYZ) ''X''" by code_simp
  have h3: "has (nodes lineXYZ) ''Y''" by code_simp
  have h4: "\<lparr>to = ''Y'', weight = 3\<rparr> \<in> set (adjacency lineXYZ ''X'')" by code_simp
  have h5: "\<lparr>to = ''X'', weight = 3\<rparr> \<in> set (adjacency lineXYZ ''Y'')" by code_simp
  from dijkstra_triangle[OF h1 h2 h3 h4 h5, of "''Z''"] h1 h2 h3 h4 h5 show ?thesis by blast
qed

lemma relax_edge_map_visited:
  "x \<notin> set U \<Longrightarrow> map_of (relax_edge U m D e) x = map_of D x"
  by (auto simp: relax_edge_def Let_def update_conv' split: option.splits)

lemma relax_fold_map_visited:
  "x \<notin> set U \<Longrightarrow> map_of (foldl (relax_edge U m) D es) x = map_of D x"
  by (induction es arbitrary: D) (simp_all add: relax_edge_map_visited)

lemma select_min_all_Infinity:
  assumes "\<forall>y\<in>set U. val D y = Infinity"
  shows "select_min D U = (None, Infinity)"
proof (cases "select_min D U")
  case (Pair r m)
  from select_fold[of D "(None, Infinity)" U r m] Pair assms
  have "(r, m) = (None, Infinity)"
    by (cases m) (auto simp: select_min_def)
  with Pair show ?thesis by simp
qed

lemma loop_stop:
  assumes "\<forall>y\<in>set U. val D y = Infinity"
  shows "dijkstra_loop g D U = D"
  using select_min_all_Infinity[OF assms] by (subst dijkstra_loop.simps) simp

lemma loop_source:
  "source_inv s D U \<Longrightarrow> map_of (dijkstra_loop g D U) s = Some (Fin 0)"
proof (induction g D U rule: dijkstra_loop.induct)
  case (1 g D U)
  show ?case
  proof (cases "select_min D U")
    case (Pair r mm)
    show ?thesis
    proof (cases "0 < length U \<and> (\<exists>c m. r = Some c \<and> mm = Fin m)")
      case True
      then obtain c m where cm: "r = Some c" "mm = Fin m" and len: "0 < length U" by blast
      from Pair cm have sel: "select_min D U = (Some c, Fin m)" by simp
      note sm = select_min_Some[OF sel]
      have ns: "s \<notin> set (removeAll c U)"
      proof (cases "s \<in> set U")
        case True
        with "1.prems" sm(1) sm(2) have "c = s" by (auto simp: source_inv_def)
        then show ?thesis by simp
      next
        case False
        then show ?thesis by simp
      qed
      have "map_of (foldl (relax_edge (removeAll c U) m) D (adjacency g c)) s = Some (Fin 0)"
        using relax_fold_map_visited[OF ns] "1.prems" by (simp add: source_inv_def)
      with ns
      have "source_inv s (foldl (relax_edge (removeAll c U) m) D (adjacency g c)) (removeAll c U)"
        unfolding source_inv_def by blast
      from "1.IH"[OF len sel[symmetric] refl refl this]
      show ?thesis using len sel by (subst dijkstra_loop.simps) simp
    next
      case False
      have "dijkstra_loop g D U = D"
        using False Pair by (subst dijkstra_loop.simps) (auto split: option.splits number.splits)
      with "1.prems" show ?thesis by (simp add: source_inv_def)
    qed
  qed
qed

lemma init_source_inv:
  "source_inv s (AList.update s (Fin 0) (fst (dijkstra_init g))) (snd (dijkstra_init g))"
  by (simp add: source_inv_def update_conv' val_def init_distances init_unvisited)

text \<open>
  C5.  For every graph and every source \<open>s\<close>, the distance map returned by \<open>dijkstra\<close>
  maps \<open>s\<close> itself to 0.
\<close>

theorem dijkstra_source_zero: "map_of (dijkstra g s) s = Some (Fin 0)"
  unfolding dijkstra_def Let_def by (rule loop_source[OF init_source_inv])

text \<open>
  C2 (as the code has it).  \<open>dijkstra\<close> does not fail on a source id that is not a
  station: it returns the distance map in which the source id is 0 and every station is
  \<open>Infinity\<close>.  Unknown ids are turned away earlier, by \<open>handleSearch\<close>, which alerts
  and returns when either workplace is not a station.
\<close>

theorem dijkstra_unknown_source:
  assumes "\<not> has (nodes g) s"
  shows "map_of (dijkstra g s) =
           (\<lambda>k. if k = s then Some (Fin 0) else if has (nodes g) k then Some Infinity else None)
       \<and> (graph app = g \<and> (workplaceA (params app) = s \<or> workplaceB (params app) = s)
            \<longrightarrow> handleSearch app = None)"
proof -
  have guard: "graph app = g \<and> (workplaceA (params app) = s \<or> workplaceB (params app) = s)
            \<longrightarrow> handleSearch app = None"
    using assms by (auto simp: handleSearch_def)
  let ?D = "AList.update s (Fin 0) (fst (dijkstra_init g))"
  have "\<forall>y\<in>set (snd (dijkstra_init g)). val ?D y = Infinity"
    using assms by (auto simp: val_def update_conv' init_distances init_unvisited has_station_ids)
  then have "dijkstra g s = ?D"
    unfolding dijkstra_def Let_def by (rule loop_stop)
  then have "map_of (dijkstra g s) =
           (\<lambda>k. if k = s then Some (Fin 0) else if has (nodes g) k then Some Infinity else None)"
    by (auto simp: update_conv' init_distances has_station_ids)
  with guard show ?thesis by blast
qed

theorem dijkstra_unknown_source_witness:
  "\<not> has (nodes lineXYZ) ''Q''
   \<and> map_of (dijkstra lineXYZ ''Q'') ''Q'' = Some (Fin 0)
   \<and> map_of (dijkstra lineXYZ ''Q'') ''X'' = Some Infinity
   \<and> handleSearch (exampleApp\<lparr>params := (params exampleApp)\<lparr>workplaceA := ''Q''\<rparr>\<rparr>) = None"
proof -
  have h: "\<not> has (nodes lineXYZ) ''Q''" by code_simp
  have x: "has (nodes lineXYZ) ''X''" by code_simp
  have a: "graph (exampleApp\<lparr>params := (params exampleApp)\<lparr>workplaceA := ''Q''\<rparr>\<rparr>) = lineXYZ"
    by (simp add: exampleApp_def)
  from dijkstra_unknown_source[OF h, of "exampleApp\<lparr>params := (params exampleApp)\<lparr>workplaceA := ''Q''\<rparr>\<rparr>"] h x a
  show ?thesis by simp
qed

text \<open>
  C2 as stated fails: on the example network the id Q is not a station, and \<open>dijkstra\<close>
  returns a distance map for it.
\<close>

theorem dijkstra_unknown_source_counterexample:
  "\<not> has (nodes lineXYZ) ''Q''
   \<and> dijkstra lineXYZ ''Q''
       = [(''X'', Infinity), (''Y'', Infinity), (''Z'', Infinity), (''W'', Infinity), (''Q'', Fin 0)]"
  by code_simp

section \<open>Graph construction\<close>

lemma push_edge_nodes [simp]: "nodes (push_edge g k e) = nodes g"
  by (simp add: push_edge_def split: option.splits)

lemma push_edge_keys: "fst ` set (edges (push_edge g k e)) = fst ` set (edges g)"
proof (cases "map_of (edges g) k")
  case None
  then show ?thesis by (simp add: push_edge_def)
next
  case (Some es)
  then have "k \<in> fst ` set (edges g)" by (metis map_of_SomeD fst_conv image_eqI)
  with Some show ?thesis by (auto simp: push_edge_def dom_update)
qed

lemma push_edge_unknown: "\<not> has (edges g) k \<Longrightarrow> push_edge g k e = g"
  by (simp add: push_edge_def has_def)

lemma has_push_edge: "has (edges (push_edge g a e)) b = has (edges g) b"
  using push_edge_keys[of g a e] by (simp add: has_def map_of_eq_None_iff)

lemma push_edge_adjacency:
  "adjacency (push_edge g k e) x =
     (if x = k \<and> has (edges g) k then adjacency g k @ [e] else adjacency g x)"
  by (auto simp: push_edge_def adjacency_def update_conv' has_def split: option.splits)

lemma same_keys_has: "same_keys g \<Longrightarrow> has (edges g) k = has (nodes g) k"
  by (simp add: same_keys_def has_def map_of_eq_None_iff)

lemma addEdge_nodes [simp]: "nodes (addEdge g a b w) = nodes g"
  by (simp add: addEdge_def)

lemma addEdge_same_keys: "same_keys g \<Longrightarrow> same_keys (addEdge g a b w)"
  by (simp add: same_keys_def addEdge_def push_edge_keys)

lemma addNode_same_keys: "same_keys g \<Longrightarrow> same_keys (addNode g station)"
  by (auto simp: same_keys_def addNode_def dom_update)

lemma addNode_adjacency:
  assumes "same_keys g"
  shows "adjacency (addNode g station) x = adjacency g x"
proof (cases "has (nodes g) (stationId station)")
  case True
  then show ?thesis by (simp add: addNode_def)
next
  case False
  with same_keys_has[OF assms, of "stationId station"]
  have "map_of (edges g) (stationId station) = None" by (simp add: has_def)
  with False show ?thesis
    by (auto simp: addNode_def adjacency_def update_conv')
qed

lemma addEdge_adjacency:
  "adjacency (addEdge g a b w) x =
     adjacency g x
     @ (if x = a \<and> has (edges g) a then [\<lparr>to = b, weight = w\<rparr>] else [])
     @ (if x = b \<and> has (edges g) b then [\<lparr>to = a, weight = w\<rparr>] else [])"
  by (auto simp: addEdge_def push_edge_adjacency has_push_edge)

lemma run_calls_same_keys: "same_keys g \<Longrightarrow> same_keys (run_calls g cs)"
proof (induction cs arbitrary: g)
  case Nil
  then show ?case by (simp add: run_calls_def)
next
  case (Cons c cs)
  have "same_keys (run_call g c)"
    using Cons.prems by (cases c) (simp_all add: addNode_same_keys addEdge_same_keys)
  from Cons.IH[OF this] show ?case by (simp add: run_calls_def)
qed

lemma empty_same_keys: "same_keys emptyGraph"
  by (simp add: same_keys_def emptyGraph_def)

lemma adjacency_unknown: "\<not> has (edges g) k \<Longrightarrow> adjacency g k = []"
  by (simp add: adjacency_def has_def)

lemma symmetric_iff:
  "symmetric g \<longleftrightarrow>
     (\<forall>u e. e \<in> set (adjacency g u) \<longrightarrow> \<lparr>to = u, weight = weight e\<rparr> \<in> set (adjacency g (to e)))"
proof
  assume s: "symmetric g"
  show "\<forall>u e. e \<in> set (adjacency g u) \<longrightarrow> \<lparr>to = u, weight = weight e\<rparr> \<in> set (adjacency g (to e))"
  proof (intro allI impI)
    fix u e assume e: "e \<in> set (adjacency g u)"
    then obtain es where "map_of (edges g) u = Some es"
      by (cases "map_of (edges g) u") (auto simp: adjacency_def)
    then have "(u, es) \<in> set (edges g)" by (rule map_of_SomeD)
    with s e show "\<lparr>to = u, weight = weight e\<rparr> \<in> set (adjacency g (to e))"
      unfolding symmetric_def by fastforce
  qed
next
  assume "\<forall>u e. e \<in> set (adjacency g u) \<longrightarrow> \<lparr>to = u, weight = weight e\<rparr> \<in> set (adjacency g (to e))"
  then show "symmetric g" unfolding symmetric_def by blast
qed

lemma addNode_symmetric: "same_keys g \<Longrightarrow> symmetric g \<Longrightarrow> symmetric (addNode g station)"
  by (simp add: symmetric_iff addNode_adjacency)

lemma addEdge_symmetric:
  assumes "symmetric g" and "has (edges g) a" and "has (edges g) b"
  shows "symmetric (addEdge g a b w)"
  using assms unfolding symmetric_iff addEdge_adjacency by auto

lemma run_calls_symmetric:
  "same_keys g \<Longrightarrow> symmetric g \<Longrightarrow> endpoints_known g cs \<Longrightarrow> symmetric (run_calls g cs)"
proof (induction cs arbitrary: g)
  case Nil
  then show ?case by (simp add: run_calls_def)
next
  case (Cons c cs)
  show ?case
  proof (cases c)
    case (AddNode station)
    with Cons.prems Cons.IH[of "addNode g station"] show ?thesis
      by (simp add: run_calls_def addNode_same_keys addNode_symmetric)
  next
    case (AddEdge a b w)
    with Cons.prems have "symmetric (addEdge g a b w)"
      by (simp add: addEdge_symmetric same_keys_has)
    with AddEdge Cons.prems Cons.IH[of "addEdge g a b w"] show ?thesis
      by (simp add: run_calls_def addEdge_same_keys)
  qed
qed

lemma empty_symmetric: "symmetric emptyGraph"
  by (simp add: symmetric_def emptyGraph_def)

text \<open>
  C3 (as the code has it).  On every graph the class can reach, \<open>addEdge\<close> returns
  normally: the station table is unchanged, an id that is not a station still has no
  adjacency entries afterwards, and when neither endpoint is a station the graph is left
  exactly as it was.  The class has no \<open>UnknownStation\<close> error.
\<close>

theorem addEdge_unknown_endpoint:
  assumes "g = run_calls emptyGraph cs"
  shows "nodes (addEdge g a b w) = nodes g
       \<and> (\<not> has (nodes g) a \<and> \<not> has (nodes g) b \<longrightarrow> addEdge g a b w = g)
       \<and> (\<not> has (nodes g) k \<longrightarrow> adjacency (addEdge g a b w) k = [])"
proof -
  have sk: "same_keys g" unfolding assms by (rule run_calls_same_keys[OF empty_same_keys])
  have "addEdge g a b w = g" if "\<not> has (nodes g) a" "\<not> has (nodes g) b"
    using that same_keys_has[OF sk] by (simp add: addEdge_def push_edge_unknown)
  moreover have "adjacency (addEdge g a b w) k = []" if "\<not> has (nodes g) k"
    using that same_keys_has[OF sk] by (auto simp: addEdge_adjacency adjacency_unknown)
  ultimately show ?thesis by simp
qed

theorem addEdge_unknown_endpoint_witness:
  "\<not> has (nodes lineXYZ) ''Q'' \<and> \<not> has (nodes lineXYZ) ''R''
   \<and> nodes (addEdge lineXYZ ''Q'' ''R'' 5) = nodes lineXYZ
   \<and> addEdge lineXYZ ''Q'' ''R'' 5 = lineXYZ
   \<and> adjacency (addEdge lineXYZ ''Q'' ''R'' 5) ''Q'' = []"
proof -
  have h1: "\<not> has (nodes lineXYZ) ''Q''" by code_simp
  have h2: "\<not> has (nodes lineXYZ) ''R''" by code_simp
  from addEdge_unknown_endpoint[OF lineXYZ_def, of "''Q''" "''R''" 5 "''Q''"] h1 h2
  show ?thesis by blast
qed

text \<open>
  C3 as stated fails: \<open>addEdge\<close> between two ids that were never added returns the graph
  unchanged, so the edge is silently ignored.
\<close>

theorem addEdge_unknown_counterexample:
  "addEdge emptyGraph ''A'' ''B'' 5 = emptyGraph"
  by (simp add: addEdge_def push_edge_def emptyGraph_def)

text \<open>
  When every \<open>addEdge\<close> names two stations already present, the class does keep the
  adjacency lists symmetric: every entry has its mirror entry with the same weight, and
  \<open>addEdge(a, b, w)\<close> stores both \<open>(b, w)\<close> in the list of \<open>a\<close> and \<open>(a, w)\<close> in the
  list of \<open>b\<close>.
\<close>

lemma known_endpoints_symmetric:
  assumes "endpoints_known emptyGraph cs" and "g = run_calls emptyGraph cs"
  shows "(e \<in> set (adjacency g u) \<longrightarrow> \<lparr>to = u, weight = weight e\<rparr> \<in> set (adjacency g (to e)))
       \<and> (has (nodes g) a \<and> has (nodes g) b \<longrightarrow>
            \<lparr>to = b, weight = w\<rparr> \<in> set (adjacency (addEdge g a b w) a)
          \<and> \<lparr>to = a, weight = w\<rparr> \<in> set (adjacency (addEdge g a b w) b))"
proof -
  have sk: "same_keys g" unfolding assms(2) by (rule run_calls_same_keys[OF empty_same_keys])
  have "symmetric g"
    unfolding assms(2) by (rule run_calls_symmetric[OF empty_same_keys empty_symmetric assms(1)])
  then have 1: "e \<in> set (adjacency g u) \<longrightarrow> \<lparr>to = u, weight = weight e\<rparr> \<in> set (adjacency g (to e))"
    by (simp add: symmetric_iff)
  have 2: "\<lparr>to = b, weight = w\<rparr> \<in> set (adjacency (addEdge g a b w) a)
         \<and> \<lparr>to = a, weight = w\<rparr> \<in> set (adjacency (addEdge g a b w) b)"
    if "has (nodes g) a" "has (nodes g) b"
    using that same_keys_has[OF sk] by (simp add: addEdge_adjacency)
  from 1 2 show ?thesis by blast
qed

text \<open>
  C4.  Adjacency symmetry is not an invariant of every graph the class can reach.  After
  \<open>addNode(X)\<close> and \<open>addEdge(X, Y, 3)\<close>, with Y never added, the list of X holds the
  entry \<open>(Y, 3)\<close> while Y is no station and has no entry \<open>(X, 3)\<close>: the first push of
  \<open>addEdge\<close> is made and the second, marked \<open>Undirected\<close> in the source, is skipped.
\<close>

theorem addEdge_half_stored:
  "\<not> has (nodes (run_calls emptyGraph [AddNode (exampleStation ''X'' 100000), AddEdge ''X'' ''Y'' 3])) ''Y''
   \<and> adjacency (run_calls emptyGraph [AddNode (exampleStation ''X'' 100000), AddEdge ''X'' ''Y'' 3]) ''X''
       = [\<lparr>to = ''Y'', weight = 3\<rparr>]
   \<and> adjacency (run_calls emptyGraph [AddNode (exampleStation ''X'' 100000), AddEdge ''X'' ''Y'' 3]) ''Y'' = []"
  by code_simp

section \<open>Ranking\<close>

lemma score_station_SomeD:
  assumes "score_station wA wB lam bud distA distB station = Some r"
  shows "\<exists>tA tB. map_of distA (stationId station) = Some (Fin tA)
           \<and> map_of distB (stationId station) = Some (Fin tB)
           \<and> r = Station.extend station
                 (StationResult.fields tA tB
                    (max 0 (min 100
                       (if rent station > bud
                        then 100 - ((lam * max (wA * tA) (wB * tB)
                                     + (1 - lam) * (wA * tA + wB * tB)) / 120) * 100 - 15
                        else 100 - ((lam * max (wA * tA) (wB * tB)
                                     + (1 - lam) * (wA * tA + wB * tB)) / 120) * 100)))
                    (generateMockAIReasons (name station) tA tB))"
proof (cases "map_of distA (stationId station)")
  case None
  with assms show ?thesis by (simp add: score_station_def)
next
  case (Some a)
  note A = this
  show ?thesis
  proof (cases a)
    case Infinity
    with A assms show ?thesis by (simp add: score_station_def)
  next
    case (Fin tA)
    note a = this
    show ?thesis
    proof (cases "map_of distB (stationId station)")
      case None
      with A a assms show ?thesis by (simp add: score_station_def)
    next
      case (Some b)
      note B = this
      show ?thesis
      proof (cases b)
        case Infinity
        with A a B assms show ?thesis by (simp add: score_station_def)
      next
        case (Fin tB)
        with A a B assms show ?thesis
          unfolding score_station_def Let_def
          by (simp only: option.case number.case option.inject simp_thms) blast
      qed
    qed
  qed
qed

lemma penalty_form: "(if c then x - 15 else x) = x - (if c then 15 else (0::rat))"
  by simp

lemma score_station_Some:
  assumes "score_station wA wB lam bud distA distB station = Some r"
  shows "Station.truncate r = station"
    and "map_of distA (stationId station) = Some (Fin (timeA r))"
    and "map_of distB (stationId station) = Some (Fin (timeB r))"
    and "score r = max 0 (min 100
           (100 - ((lam * max (wA * timeA r) (wB * timeB r)
                    + (1 - lam) * (wA * timeA r + wB * timeB r)) / 120) * 100
                - (if rent station > bud then 15 else 0)))"
proof -
  from score_station_SomeD[OF assms] obtain tA tB where
    A: "map_of distA (stationId station) = Some (Fin tA)"
    and B: "map_of distB (stationId station) = Some (Fin tB)"
    and r: "r = Station.extend station
                 (StationResult.fields tA tB
                    (max 0 (min 100
                       (if rent station > bud
                        then 100 - ((lam * max (wA * tA) (wB * tB)
                                     + (1 - lam) * (wA * tA + wB * tB)) / 120) * 100 - 15
                        else 100 - ((lam * max (wA * tA) (wB * tB)
                                     + (1 - lam) * (wA * tA + wB * tB)) / 120) * 100)))
                    (generateMockAIReasons (name station) tA tB))"
    by blast
  have tA: "timeA r = tA" and tB: "timeB r = tB"
    unfolding r by (simp_all only: Station.defs StationResult.defs StationResult.simps)
  show "Station.truncate r = station"
    unfolding r by (simp only: Station.defs StationResult.defs Station.simps Station.surjective[symmetric])
      (cases station, simp)
  from A tA show "map_of distA (stationId station) = Some (Fin (timeA r))" by simp
  from B tB show "map_of distB (stationId station) = Some (Fin (timeB r))" by simp
  have "score r = max 0 (min 100
                       (if rent station > bud
                        then 100 - ((lam * max (wA * tA) (wB * tB)
                                     + (1 - lam) * (wA * tA + wB * tB)) / 120) * 100 - 15
                        else 100 - ((lam * max (wA * tA) (wB * tB)
                                     + (1 - lam) * (wA * tA + wB * tB)) / 120) * 100))"
    unfolding r by (simp only: Station.defs StationResult.defs StationResult.simps)
  then show "score r = max 0 (min 100
           (100 - ((lam * max (wA * timeA r) (wB * timeB r)
                    + (1 - lam) * (wA * timeA r + wB * timeB r)) / 120) * 100
                - (if rent station > bud then 15 else 0)))"
    unfolding tA tB by (simp only: penalty_form)
qed

lemma score_station_None:
  "(score_station wA wB lam bud distA distB station = None)
     = (\<not> (finite_dist distA (stationId station) \<and> finite_dist distB (stationId station)))"
  by (auto simp: score_station_def finite_dist_def Let_def split: option.splits number.splits)

lemma map_filter_truncate:
  assumes "\<And>x y. f x = Some y \<Longrightarrow> g y = x"
  shows "map g (List.map_filter f xs) = filter (\<lambda>x. f x \<noteq> None) xs"
  using assms by (induction xs) (auto simp: List.map_filter_simps split: option.splits)

lemma scored_listing:
  "map Station.truncate (scoredStations app) = filter (qualifies app) (getAllStations (graph app))"
proof -
  let ?f = "score_station (fst (weights (ratio (params app)))) (snd (weights (ratio (params app))))
              (lambda (params app)) (budget (params app))
              (dijkstra (graph app) (workplaceA (params app)))
              (dijkstra (graph app) (workplaceB (params app)))"
  have "map Station.truncate (List.map_filter ?f (getAllStations (graph app)))
          = filter (\<lambda>x. ?f x \<noteq> None) (getAllStations (graph app))"
    by (rule map_filter_truncate) (rule score_station_Some(1))
  also have "\<dots> = filter (qualifies app) (getAllStations (graph app))"
    by (rule filter_cong) (simp_all add: score_station_None qualifies_def)
  finally show ?thesis by (simp add: scoredStations_def Let_def)
qed

lemma scored_entry:
  assumes "r \<in> set (scoredStations app)"
  shows "\<exists>station\<in>set (getAllStations (graph app)).
           score_station (fst (weights (ratio (params app)))) (snd (weights (ratio (params app))))
              (lambda (params app)) (budget (params app))
              (dijkstra (graph app) (workplaceA (params app)))
              (dijkstra (graph app) (workplaceB (params app))) station = Some r"
  using assms by (auto simp: scoredStations_def Let_def List.map_filter_def)

lemma results_subset: "set (results (calculateResults app)) \<subseteq> set (scoredStations app)"
  by (auto simp: calculateResults_def sort_by_score_def dest: in_set_takeD)

lemma scored_qualifies:
  assumes "r \<in> set (scoredStations app)"
  shows "qualifies app (Station.truncate r)"
proof -
  from assms have "Station.truncate r \<in> set (map Station.truncate (scoredStations app))" by simp
  then show ?thesis by (simp add: scored_listing)
qed

lemma sorted_desc: "sorted_wrt (\<lambda>a b. score b \<le> score a) (sort_by_score rs)"
proof -
  have "sorted (map (\<lambda>r. - score r) (sort_key (\<lambda>r. - score r) rs))" by (rule sorted_sort_key)
  then show ?thesis by (simp add: sort_by_score_def sorted_map)
qed

lemma ties_stable:
  "filter (\<lambda>r. score r = k) (sort_by_score rs) = filter (\<lambda>r. score r = k) rs"
proof -
  have "filter (\<lambda>r. - score r = - k) (sort_key (\<lambda>r. - score r) rs)
          = filter (\<lambda>r. - score r = - k) rs"
    by (rule sort_key_stable)
  then show ?thesis by (simp add: sort_by_score_def)
qed

lemma filter_take_prefix: "prefix (filter P (take n xs)) (filter P xs)"
proof -
  have "prefix (take n xs) xs" by (rule take_is_prefix)
  then obtain ys where "xs = take n xs @ ys" by (auto simp: prefix_def)
  then have "filter P xs = filter P (take n xs) @ filter P ys" by (metis filter_append)
  then show ?thesis by (simp add: prefix_def)
qed

text \<open>
  C6.  The ranking scores exactly the stations whose distances from both workplaces are
  finite, in listing order; a station whose distance from either workplace is \<open>Infinity\<close>
  or absent never appears in the returned list.
\<close>

theorem scored_exactly_finite:
  "map Station.truncate (scoredStations app) = filter (qualifies app) (getAllStations (graph app))
   \<and> (\<forall>r\<in>set (results (calculateResults app)). qualifies app (Station.truncate r))"
  using scored_listing[of app] results_subset[of app] scored_qualifies[of _ app] by blast

theorem scored_exactly_finite_witness:
  "results (calculateResults exampleApp) \<noteq> []
   \<and> \<not> qualifies exampleApp (exampleStation ''W'' 90000)
   \<and> exampleStation ''W'' 90000 \<in> set (getAllStations (graph exampleApp))
   \<and> exampleStation ''W'' 90000 \<notin> Station.truncate ` set (results (calculateResults exampleApp))
   \<and> exampleResultY \<in> set (results (calculateResults exampleApp))
   \<and> qualifies exampleApp (Station.truncate exampleResultY)
   \<and> map Station.truncate (scoredStations exampleApp)
       = filter (qualifies exampleApp) (getAllStations (graph exampleApp))"
proof -
  have h1: "results (calculateResults exampleApp) \<noteq> []" by code_simp
  have h2: "\<not> qualifies exampleApp (exampleStation ''W'' 90000)" by code_simp
  have h3: "exampleStation ''W'' 90000 \<in> set (getAllStations (graph exampleApp))" by code_simp
  have h4: "exampleResultY \<in> set (results (calculateResults exampleApp))" by code_simp
  note t = scored_exactly_finite[of exampleApp]
  from t have a: "map Station.truncate (scoredStations exampleApp)
       = filter (qualifies exampleApp) (getAllStations (graph exampleApp))"
    by (rule conjunct1)
  from t have b: "\<forall>r\<in>set (results (calculateResults exampleApp)).
       qualifies exampleApp (Station.truncate r)"
    by (rule conjunct2)
  from b h4 have c: "qualifies exampleApp (Station.truncate exampleResultY)" by (rule bspec)
  have d: "exampleStation ''W'' 90000 \<notin> Station.truncate ` set (results (calculateResults exampleApp))"
  proof
    assume "exampleStation ''W'' 90000 \<in> Station.truncate ` set (results (calculateResults exampleApp))"
    then obtain r where r: "r \<in> set (results (calculateResults exampleApp))"
      and w: "exampleStation ''W'' 90000 = Station.truncate r" by (rule imageE)
    from b r have "qualifies exampleApp (Station.truncate r)" by (rule bspec)
    then have "qualifies exampleApp (exampleStation ''W'' 90000)" by (simp only: w)
    with h2 show False by (rule notE)
  qed
  from h1 h2 h3 d h4 c a show ?thesis by (intro conjI)
qed

text \<open>
  C7.  For every scored station (and so for every returned one) the score is
  \<open>100 - ((lambda * max(wA*timeA, wB*timeB) + (1 - lambda) * (wA*timeA + wB*timeB)) / 120) * 100\<close>,
  less 15 exactly when the station's rent exceeds the budget, clamped to the interval from
  0 to 100; \<open>timeA\<close> and \<open>timeB\<close> are the station's distances from the two workplaces.
\<close>

theorem score_formula:
  assumes "r \<in> set (scoredStations app) \<union> set (results (calculateResults app))"
  shows "score r = max 0 (min 100
           (100 - ((lambda (params app)
                      * max (fst (weights (ratio (params app))) * timeA r)
                            (snd (weights (ratio (params app))) * timeB r)
                    + (1 - lambda (params app))
                      * (fst (weights (ratio (params app))) * timeA r
                         + snd (weights (ratio (params app))) * timeB r)) / 120) * 100
                - (if rent r > budget (params app) then 15 else 0)))
       \<and> map_of (dijkstra (graph app) (workplaceA (params app))) (stationId r) = Some (Fin (timeA r))
       \<and> map_of (dijkstra (graph app) (workplaceB (params app))) (stationId r) = Some (Fin (timeB r))"
proof -
  from assms results_subset[of app] have "r \<in> set (scoredStations app)" by blast
  from scored_entry[OF this] obtain station where
    s: "score_station (fst (weights (ratio (params app)))) (snd (weights (ratio (params app))))
              (lambda (params app)) (budget (params app))
              (dijkstra (graph app) (workplaceA (params app)))
              (dijkstra (graph app) (workplaceB (params app))) station = Some r"
    by blast
  note f = score_station_Some[OF s]
  from f(1) have "rent station = rent r" "stationId station = stationId r"
    by (auto simp: Station.defs)
  with f(2) f(3) f(4) show ?thesis by simp
qed

theorem score_formula_witness:
  "exampleResultY \<in> set (scoredStations exampleApp) \<union> set (results (calculateResults exampleApp))
   \<and> score exampleResultY = max 0 (min 100
           (100 - ((lambda (params exampleApp)
                      * max (fst (weights (ratio (params exampleApp))) * timeA exampleResultY)
                            (snd (weights (ratio (params exampleApp))) * timeB exampleResultY)
                    + (1 - lambda (params exampleApp))
                      * (fst (weights (ratio (params exampleApp))) * timeA exampleResultY
                         + snd (weights (ratio (params exampleApp))) * timeB exampleResultY)) / 120) * 100
                - (if rent exampleResultY > budget (params exampleApp) then 15 else 0)))"
proof -
  have h: "exampleResultY \<in> set (scoredStations exampleApp) \<union> set (results (calculateResults exampleApp))"
    by code_simp
  from score_formula[OF h] h show ?thesis by blast
qed

text \<open>
  C8.  The returned list is sorted by descending score; it has 10 entries, or all scored
  entries when there are fewer; entries of equal score appear in the order of the scored
  list, earliest first, and the scored list follows the graph's station listing order; the
  entries left out score no more than any entry returned.
\<close>

theorem results_sorted_top10:
  "sorted_wrt (\<lambda>a b. score b \<le> score a) (results (calculateResults app))
   \<and> length (results (calculateResults app)) = min 10 (length (scoredStations app))
   \<and> (\<forall>k. prefix (filter (\<lambda>r. score r = k) (results (calculateResults app)))
                  (filter (\<lambda>r. score r = k) (scoredStations app)))
   \<and> subseq (map Station.truncate (scoredStations app)) (getAllStations (graph app))
   \<and> (\<exists>rest. mset (results (calculateResults app) @ rest) = mset (scoredStations app)
         \<and> (\<forall>a\<in>set (results (calculateResults app)). \<forall>b\<in>set rest. score b \<le> score a))"
proof -
  let ?s = "sort_by_score (scoredStations app)"
  have res: "results (calculateResults app) = take 10 ?s" by (simp add: calculateResults_def)
  have srt: "sorted_wrt (\<lambda>a b. score b \<le> score a) ?s" by (rule sorted_desc)
  have 1: "sorted_wrt (\<lambda>a b. score b \<le> score a) (take 10 ?s)"
    using srt by (rule sorted_wrt_take)
  have 2: "length (take 10 ?s) = min 10 (length (scoredStations app))"
    by (simp add: sort_by_score_def min.commute)
  have 3: "prefix (filter (\<lambda>r. score r = k) (take 10 ?s)) (filter (\<lambda>r. score r = k) (scoredStations app))" for k
    using filter_take_prefix[of "\<lambda>r. score r = k" 10 ?s] by (simp add: ties_stable)
  have 4: "subseq (map Station.truncate (scoredStations app)) (getAllStations (graph app))"
    by (simp add: scored_listing)
  have "take 10 ?s @ drop 10 ?s = ?s" by simp
  with srt have "\<forall>a\<in>set (take 10 ?s). \<forall>b\<in>set (drop 10 ?s). score b \<le> score a"
    by (metis sorted_wrt_append)
  moreover have "mset (take 10 ?s @ drop 10 ?s) = mset (scoredStations app)"
    by (simp add: sort_by_score_def)
  ultimately have 5: "\<exists>rest. mset (take 10 ?s @ rest) = mset (scoredStations app)
         \<and> (\<forall>a\<in>set (take 10 ?s). \<forall>b\<in>set rest. score b \<le> score a)" by blast
  from 1 2 3 4 5 show ?thesis unfolding res by blast
qed

theorem results_sorted_top10_witness:
  "results (calculateResults exampleApp) \<noteq> []
   \<and> sorted_wrt (\<lambda>a b. score b \<le> score a) (results (calculateResults exampleApp))
   \<and> length (results (calculateResults exampleApp)) = min 10 (length (scoredStations exampleApp))
   \<and> prefix (filter (\<lambda>r. score r = 565 / 6) (results (calculateResults exampleApp)))
             (filter (\<lambda>r. score r = 565 / 6) (scoredStations exampleApp))"
proof -
  have h: "results (calculateResults exampleApp) \<noteq> []" by code_simp
  from results_sorted_top10[of exampleApp] h show ?thesis by blast
qed




text \<open>
  Stability is what decides it: on the example, X and Z have equal scores, and the list
  with Z before X is a descending permutation of the scored list too, but not a result the
  requirements on \<open>sort\<close> allow.
\<close>

lemma stability_needed:
  "scoredStations exampleApp = [exampleResultX, exampleResultY, exampleResultZ]
   \<and> mset [exampleResultZ, exampleResultX, exampleResultY] = mset (scoredStations exampleApp)
   \<and> sorted_wrt (\<lambda>a b. score b \<le> score a) [exampleResultZ, exampleResultX, exampleResultY]
   \<and> [exampleResultZ, exampleResultX, exampleResultY] \<noteq> sort_by_score (scoredStations exampleApp)
   \<and> \<not> js_sort_result (scoredStations exampleApp) [exampleResultZ, exampleResultX, exampleResultY]"
  by code_simp



end
